theory Spec2Isabelle
  imports Main "HOL-Library.AList"
begin

section \<open>The ConfigObj configuration handler of cement (ext\_configobj.py)\<close>

text \<open>
  The handler \<open>ConfigObjConfigHandler\<close> adapts a \<open>ConfigObj\<close> store to the
  configuration interface of the framework. Every method of the handler is embedded
  below as a function that takes the store \<open>self\<close> and returns either an error (the
  exception the Python raises) or the result together with the store after the call.
\<close>

subsection \<open>Python values and dictionaries\<close>

text \<open>
  A Python value is either a dictionary or anything else. The handler only ever asks
  \<open>type(v) == dict\<close> of a value, so every value that is not a dictionary is a
  \<open>Scalar\<close>, told apart by its text. A dictionary is an association list: the order
  of the list is the iteration order of the dictionary.
\<close>

datatype pyval = Scalar string | Dict "(string \<times> pyval) list"

type_synonym pydict = "(string \<times> pyval) list"

datatype error = KeyError string | ConfigObjError string

text \<open>\<open>d.keys()\<close>, \<open>d[k]\<close> (raising \<open>KeyError\<close> on a missing key) and \<open>d[k] = v\<close>
  (replacing an entry where it stands, appending a new one).\<close>

definition dict_keys :: "(string \<times> 'v) list \<Rightarrow> string list" where
  "dict_keys d = map fst d"

definition dict_getitem :: "(string \<times> 'v) list \<Rightarrow> string \<Rightarrow> error + 'v" where
  "dict_getitem d k = (case map_of d k of None \<Rightarrow> Inl (KeyError k) | Some v \<Rightarrow> Inr v)"

definition dict_setitem :: "(string \<times> 'v) list \<Rightarrow> string \<Rightarrow> 'v \<Rightarrow> (string \<times> 'v) list" where
  "dict_setitem d k v = AList.update k v d"

subsection \<open>The store\<close>

text \<open>
  Modelled from the spec: the class \<open>ConfigObj\<close> that the handler inherits from is an
  external library and not part of the repository. The store is what the data model of
  the specification says it is: an ordered mapping from section names to sections, a
  section being an ordered mapping from keys to values. \<open>self.sections\<close> lists the
  section names in insertion order, \<open>self[section]\<close> raises \<open>KeyError\<close> for a name
  that is not a section, and \<open>self[section] = dict()\<close> stores an empty section.
  Settings that a ConfigObj file may hold outside every section are not part of this
  data model, so the store has none: every top-level name is a section.
\<close>

type_synonym config = "(string \<times> pydict) list"

definition sections :: "config \<Rightarrow> string list" where
  "sections self = dict_keys self"

subsection \<open>The handler\<close>

definition get_sections :: "config \<Rightarrow> string list" where
  "get_sections self = sections self"

definition keys :: "config \<Rightarrow> string \<Rightarrow> error + string list" where
  "keys self section =
     (case dict_getitem self section of
        Inl e \<Rightarrow> Inl e
      | Inr sec \<Rightarrow> Inr (dict_keys sec))"

definition get :: "config \<Rightarrow> string \<Rightarrow> string \<Rightarrow> error + pyval" where
  "get self section key =
     (case dict_getitem self section of
        Inl e \<Rightarrow> Inl e
      | Inr sec \<Rightarrow> dict_getitem sec key)"

text \<open>\<open>self[section][key] = value\<close>: the section is looked up first, so a missing
  section raises before anything is written.\<close>

definition set_cfg :: "config \<Rightarrow> string \<Rightarrow> string \<Rightarrow> pyval \<Rightarrow> error + config" where
  "set_cfg self section key v =
     (case dict_getitem self section of
        Inl e \<Rightarrow> Inl e
      | Inr sec \<Rightarrow> Inr (dict_setitem self section (dict_setitem sec key v)))"

definition has_section :: "config \<Rightarrow> string \<Rightarrow> bool" where
  "has_section self section =
     (if section \<in> set (get_sections self) then True else False)"

definition add_section :: "config \<Rightarrow> string \<Rightarrow> config" where
  "add_section self section =
     (if \<not> has_section self section then dict_setitem self section [] else self)"

text \<open>The loop of \<open>get_section_dict\<close>, over the keys still to copy, with the
  dictionary built so far.\<close>

fun get_section_dict_loop ::
  "config \<Rightarrow> string \<Rightarrow> string list \<Rightarrow> pydict \<Rightarrow> error + pydict" where
  "get_section_dict_loop self section [] dict_obj = Inr dict_obj"
| "get_section_dict_loop self section (key # ks) dict_obj =
     (case get self section key of
        Inl e \<Rightarrow> Inl e
      | Inr v \<Rightarrow> get_section_dict_loop self section ks (dict_setitem dict_obj key v))"

definition get_section_dict :: "config \<Rightarrow> string \<Rightarrow> error + pydict" where
  "get_section_dict self section =
     (case keys self section of
        Inl e \<Rightarrow> Inl e
      | Inr ks \<Rightarrow> get_section_dict_loop self section ks [])"

text \<open>
  The inner loop of \<open>merge\<close>: \<open>sd\<close> is \<open>dict_obj[section]\<close> and the list holds the keys of
  \<open>sd\<close> still to visit. With \<open>override\<close> the value is read and written; without it the
  keys of the section are listed first and the value is read and written only if the
  key is not among them.
\<close>

fun merge_keys ::
  "config \<Rightarrow> string \<Rightarrow> pydict \<Rightarrow> bool \<Rightarrow> string list \<Rightarrow> error + config" where
  "merge_keys self section sd override [] = Inr self"
| "merge_keys self section sd override (key # ks) =
     (if override then
        (case dict_getitem sd key of
           Inl e \<Rightarrow> Inl e
         | Inr v \<Rightarrow>
             (case set_cfg self section key v of
                Inl e \<Rightarrow> Inl e
              | Inr self' \<Rightarrow> merge_keys self' section sd override ks))
      else
        (case keys self section of
           Inl e \<Rightarrow> Inl e
         | Inr existing \<Rightarrow>
             if key \<notin> set existing then
               (case dict_getitem sd key of
                  Inl e \<Rightarrow> Inl e
                | Inr v \<Rightarrow>
                    (case set_cfg self section key v of
                       Inl e \<Rightarrow> Inl e
                     | Inr self' \<Rightarrow> merge_keys self' section sd override ks))
             else merge_keys self section sd override ks))"

text \<open>
  The outer loop of \<open>merge\<close>, over the top-level keys of \<open>dict_obj\<close> still to visit. An
  entry whose value is not a dictionary is passed over; for a dictionary the section
  is added when \<open>get_sections\<close> does not list it, and the inner loop runs over its keys.
\<close>

fun merge_sections ::
  "config \<Rightarrow> pydict \<Rightarrow> bool \<Rightarrow> string list \<Rightarrow> error + config" where
  "merge_sections self dict_obj override [] = Inr self"
| "merge_sections self dict_obj override (section # rest) =
     (case dict_getitem dict_obj section of
        Inl e \<Rightarrow> Inl e
      | Inr (Scalar x) \<Rightarrow> merge_sections self dict_obj override rest
      | Inr (Dict sd) \<Rightarrow>
          (case merge_keys
                  (if section \<notin> set (get_sections self)
                   then add_section self section else self)
                  section sd override (dict_keys sd) of
             Inl e \<Rightarrow> Inl e
           | Inr self' \<Rightarrow> merge_sections self' dict_obj override rest))"

definition merge :: "config \<Rightarrow> pydict \<Rightarrow> bool \<Rightarrow> error + config" where
  "merge self dict_obj override =
     merge_sections self dict_obj override (dict_keys dict_obj)"

text \<open>
  \<open>parse_file\<close> reads the file system, which is a parameter of the model:
  \<open>abspath_expanduser\<close> is \<open>os.path.abspath(os.path.expanduser(p))\<close>, \<open>path_exists\<close> is
  \<open>os.path.exists\<close>, and \<open>configobj_dict p\<close> is \<open>ConfigObj(p).dict()\<close>, the parsed
  contents of the file as a plain dictionary or the parser's error. The call of
  \<open>merge\<close> leaves \<open>override\<close> at its default, \<open>True\<close>. The two debug log lines
  are not part of the store and are left out.
\<close>

record filesystem =
  abspath_expanduser :: "string \<Rightarrow> string"
  path_exists :: "string \<Rightarrow> bool"
  configobj_dict :: "string \<Rightarrow> error + pydict"

definition parse_file :: "filesystem \<Rightarrow> config \<Rightarrow> string \<Rightarrow> error + (bool \<times> config)" where
  "parse_file fs self file_path =
     (let file_path = abspath_expanduser fs file_path in
      if path_exists fs file_path then
        (case configobj_dict fs file_path of
           Inl e \<Rightarrow> Inl e
         | Inr c \<Rightarrow>
             (case merge self c True of
                Inl e \<Rightarrow> Inl e
              | Inr self' \<Rightarrow> Inr (True, self')))
      else Inr (False, self))"

subsection \<open>The contents of a section as a map\<close>

text \<open>The proofs about \<open>merge\<close> compare sections key by key: \<open>section_map self S\<close>
  is the map from the keys of section \<open>S\<close> to their values, empty when there is no
  such section.\<close>

definition section_map :: "config \<Rightarrow> string \<Rightarrow> (string \<rightharpoonup> pyval)" where
  "section_map self S = (case map_of self S of None \<Rightarrow> Map.empty | Some sec \<Rightarrow> map_of sec)"

section \<open>Properties\<close>

subsection \<open>Dictionaries\<close>

lemma dict_getitem_Inr: "dict_getitem d k = Inr v \<longleftrightarrow> map_of d k = Some v"
  by (simp add: dict_getitem_def split: option.splits)

lemma dict_getitem_Inl: "dict_getitem d k = Inl e \<longleftrightarrow> map_of d k = None \<and> e = KeyError k"
  by (auto simp: dict_getitem_def split: option.splits)

lemma dict_getitem_Some: "map_of d k = Some v \<Longrightarrow> dict_getitem d k = Inr v"
  by (simp add: dict_getitem_def)

lemma dict_getitem_None: "map_of d k = None \<Longrightarrow> dict_getitem d k = Inl (KeyError k)"
  by (simp add: dict_getitem_def)

lemma map_of_dict_setitem: "map_of (dict_setitem d k v) = (map_of d)(k \<mapsto> v)"
  by (simp add: dict_setitem_def update_conv')

lemma dict_keys_setitem:
  "dict_keys (dict_setitem d k v) =
     (if k \<in> set (dict_keys d) then dict_keys d else dict_keys d @ [k])"
  by (simp add: dict_setitem_def dict_keys_def update_keys)

lemma in_dict_keys: "k \<in> set (dict_keys d) \<longleftrightarrow> map_of d k \<noteq> None"
  by (simp add: dict_keys_def map_of_eq_None_iff)

lemma restrict_dict_keys: "map_of sd |` set (dict_keys sd) = map_of sd"
proof
  fix K
  show "(map_of sd |` set (dict_keys sd)) K = map_of sd K"
    by (cases "map_of sd K") (auto simp: restrict_map_def in_dict_keys)
qed

lemma map_add_same: "n ++ n = (n :: 'a \<rightharpoonup> 'b)"
  by (rule ext) (simp add: map_add_def split: option.splits)

lemma map_add_same_right: "m ++ n ++ n = m ++ (n :: 'a \<rightharpoonup> 'b)"
  by (rule ext) (simp add: map_add_def split: option.splits)

subsection \<open>Sections and keys\<close>

lemma in_get_sections: "S \<in> set (get_sections self) \<longleftrightarrow> map_of self S \<noteq> None"
  by (simp add: get_sections_def sections_def in_dict_keys)

lemma set_cfg_Some:
  "map_of self S = Some sec \<Longrightarrow>
   set_cfg self S K v = Inr (dict_setitem self S (dict_setitem sec K v))"
  by (simp add: set_cfg_def dict_getitem_def)

lemma keys_Some: "map_of self S = Some sec \<Longrightarrow> keys self S = Inr (dict_keys sec)"
  by (simp add: keys_def dict_getitem_def)

lemma section_map_upd:
  "map_of self' = (map_of self)(S \<mapsto> sec') \<Longrightarrow>
   section_map self' T = (if T = S then map_of sec' else section_map self T)"
  by (simp add: section_map_def)

subsection \<open>The loops of merge\<close>

text \<open>
  The inner loop never fails on a section that exists, touches no other section and
  adds none; the section it leaves holds the old entries overlaid with the visited
  entries of \<open>sd\<close> when overriding, and the visited entries overlaid with the old
  ones otherwise.
\<close>

lemma merge_keys_override:
  assumes "map_of self S = Some sec" and "set ks \<subseteq> set (dict_keys sd)"
  shows "\<exists>self' sec'. merge_keys self S sd True ks = Inr self'
           \<and> map_of self' = (map_of self)(S \<mapsto> sec')
           \<and> dict_keys self' = dict_keys self
           \<and> map_of sec' = map_of sec ++ (map_of sd |` set ks)"
  using assms
proof (induction ks arbitrary: self sec)
  case Nil
  then have m: "map_of self = (map_of self)(S \<mapsto> sec)" by (auto simp: fun_eq_iff)
  have "merge_keys self S sd True [] = Inr self" and "dict_keys self = dict_keys self"
    and "map_of sec = map_of sec ++ (map_of sd |` set [])" by simp_all
  with m show ?case by blast
next
  case (Cons key ks)
  from Cons.prems(2) obtain v where v: "map_of sd key = Some v"
    by (auto simp: in_dict_keys)
  let ?sec1 = "dict_setitem sec key v"
  let ?self1 = "dict_setitem self S ?sec1"
  have S1: "map_of ?self1 S = Some ?sec1" by (simp add: map_of_dict_setitem)
  have "set ks \<subseteq> set (dict_keys sd)" using Cons.prems(2) by simp
  from Cons.IH [OF S1 this] obtain self' sec' where
    r: "merge_keys ?self1 S sd True ks = Inr self'"
       "map_of self' = (map_of ?self1)(S \<mapsto> sec')"
       "dict_keys self' = dict_keys ?self1"
       "map_of sec' = map_of ?sec1 ++ (map_of sd |` set ks)"
    by blast
  have run: "merge_keys self S sd True (key # ks) = Inr self'"
    using r(1) v Cons.prems(1) by (simp add: dict_getitem_Some set_cfg_Some)
  have m: "map_of self' = (map_of self)(S \<mapsto> sec')"
    using r(2) by (simp add: map_of_dict_setitem)
  have k: "dict_keys self' = dict_keys self"
    using r(3) Cons.prems(1) by (simp add: dict_keys_setitem in_dict_keys)
  have "map_of sec' = map_of sec ++ (map_of sd |` set (key # ks))"
  proof
    fix K
    show "map_of sec' K = (map_of sec ++ (map_of sd |` set (key # ks))) K"
      using r(4) v by (auto simp: map_of_dict_setitem map_add_def restrict_map_def split: option.splits)
  qed
  with run m k show ?case by blast
qed

lemma merge_keys_keep:
  assumes "map_of self S = Some sec" and "set ks \<subseteq> set (dict_keys sd)"
  shows "\<exists>self' sec'. merge_keys self S sd False ks = Inr self'
           \<and> map_of self' = (map_of self)(S \<mapsto> sec')
           \<and> dict_keys self' = dict_keys self
           \<and> map_of sec' = (map_of sd |` set ks) ++ map_of sec"
  using assms
proof (induction ks arbitrary: self sec)
  case Nil
  then have m: "map_of self = (map_of self)(S \<mapsto> sec)" by (auto simp: fun_eq_iff)
  have "merge_keys self S sd False [] = Inr self" and "dict_keys self = dict_keys self"
    and "map_of sec = (map_of sd |` set []) ++ map_of sec" by simp_all
  with m show ?case by blast
next
  case (Cons key ks)
  from Cons.prems(2) obtain v where v: "map_of sd key = Some v"
    by (auto simp: in_dict_keys)
  have sub: "set ks \<subseteq> set (dict_keys sd)" using Cons.prems(2) by simp
  show ?case
  proof (cases "key \<in> set (dict_keys sec)")
    case True
    from Cons.IH [OF Cons.prems(1) sub] obtain self' sec' where
      r: "merge_keys self S sd False ks = Inr self'"
         "map_of self' = (map_of self)(S \<mapsto> sec')"
         "dict_keys self' = dict_keys self"
         "map_of sec' = (map_of sd |` set ks) ++ map_of sec"
      by blast
    have run: "merge_keys self S sd False (key # ks) = Inr self'"
      using r(1) True Cons.prems(1) by (simp add: keys_Some)
    have "map_of sec' = (map_of sd |` set (key # ks)) ++ map_of sec"
    proof
      fix K
      show "map_of sec' K = ((map_of sd |` set (key # ks)) ++ map_of sec) K"
        using r(4) True by (auto simp: in_dict_keys map_add_def restrict_map_def split: option.splits)
    qed
    with run r(2,3) show ?thesis by blast
  next
    case False
    let ?sec1 = "dict_setitem sec key v"
    let ?self1 = "dict_setitem self S ?sec1"
    have S1: "map_of ?self1 S = Some ?sec1" by (simp add: map_of_dict_setitem)
    from Cons.IH [OF S1 sub] obtain self' sec' where
      r: "merge_keys ?self1 S sd False ks = Inr self'"
         "map_of self' = (map_of ?self1)(S \<mapsto> sec')"
         "dict_keys self' = dict_keys ?self1"
         "map_of sec' = (map_of sd |` set ks) ++ map_of ?sec1"
      by blast
    have run: "merge_keys self S sd False (key # ks) = Inr self'"
      using r(1) v False Cons.prems(1)
      by (simp add: keys_Some dict_getitem_Some set_cfg_Some)
    have m: "map_of self' = (map_of self)(S \<mapsto> sec')"
      using r(2) by (simp add: map_of_dict_setitem)
    have k: "dict_keys self' = dict_keys self"
      using r(3) Cons.prems(1) by (simp add: dict_keys_setitem in_dict_keys)
    have "map_of sec' = (map_of sd |` set (key # ks)) ++ map_of sec"
    proof
      fix K
      show "map_of sec' K = ((map_of sd |` set (key # ks)) ++ map_of sec) K"
        using r(4) v False
        by (auto simp: in_dict_keys map_of_dict_setitem map_add_def restrict_map_def split: option.splits)
    qed
    with run m k show ?thesis by blast
  qed
qed

text \<open>One round of the outer loop on a dictionary-valued entry.\<close>

lemma merge_body:
  "\<exists>self' sec'.
     merge_keys (if S \<notin> set (get_sections self) then add_section self S else self)
       S sd ov (dict_keys sd) = Inr self'
     \<and> map_of self' = (map_of self)(S \<mapsto> sec')
     \<and> (\<exists>new. dict_keys self' = dict_keys self @ new)
     \<and> map_of sec' = (if ov then section_map self S ++ map_of sd
                       else map_of sd ++ section_map self S)"
proof -
  let ?self1 = "if S \<notin> set (get_sections self) then add_section self S else self"
  obtain sec where sec: "map_of ?self1 S = Some sec" "map_of sec = section_map self S"
    and m1: "(map_of ?self1)(S \<mapsto> x) = (map_of self)(S \<mapsto> x)"
    and k1: "\<exists>new. dict_keys ?self1 = dict_keys self @ new" for x
  proof (cases "S \<in> set (get_sections self)")
    case True
    then obtain sec where "map_of self S = Some sec" by (auto simp: in_get_sections)
    with True that [of sec] show ?thesis by (simp add: section_map_def)
  next
    case False
    then have "?self1 = dict_setitem self S []"
      by (simp add: add_section_def has_section_def)
    moreover have "map_of self S = None" using False by (simp add: in_get_sections)
    ultimately show ?thesis using that [of "[]"] False
      by (simp add: map_of_dict_setitem dict_keys_setitem section_map_def
          get_sections_def sections_def)
  qed
  have sub: "set (dict_keys sd) \<subseteq> set (dict_keys sd)" by simp
  show ?thesis
  proof (cases ov)
    case True
    from merge_keys_override [OF sec(1) sub] obtain self' sec' where
      "merge_keys ?self1 S sd True (dict_keys sd) = Inr self'"
      "map_of self' = (map_of ?self1)(S \<mapsto> sec')"
      "dict_keys self' = dict_keys ?self1"
      "map_of sec' = map_of sec ++ (map_of sd |` set (dict_keys sd))"
      by blast
    with True sec(2) m1 k1 show ?thesis
      by (simp only: restrict_dict_keys if_True) metis
  next
    case False
    from merge_keys_keep [OF sec(1) sub] obtain self' sec' where
      "merge_keys ?self1 S sd False (dict_keys sd) = Inr self'"
      "map_of self' = (map_of ?self1)(S \<mapsto> sec')"
      "dict_keys self' = dict_keys ?self1"
      "map_of sec' = (map_of sd |` set (dict_keys sd)) ++ map_of sec"
      by blast
    with False sec(2) m1 k1 show ?thesis
      by (simp only: restrict_dict_keys if_False) metis
  qed
qed

text \<open>
  The outer loop: it returns, sections that are not named by a dictionary-valued entry
  are the very same lists afterwards, the named ones hold the overlay, and the list of
  section names only grows at its end.
\<close>

lemma merge_sections_spec:
  assumes "set rest \<subseteq> set (dict_keys d)"
  shows "\<exists>self'. merge_sections self d ov rest = Inr self'
     \<and> (\<forall>S. (S \<in> set rest \<and> (\<exists>sd. map_of d S = Some (Dict sd)))
              \<or> map_of self' S = map_of self S)
     \<and> (\<forall>S sd. S \<in> set rest \<longrightarrow> map_of d S = Some (Dict sd) \<longrightarrow>
           (\<exists>sec'. map_of self' S = Some sec'
              \<and> map_of sec' = (if ov then section_map self S ++ map_of sd
                                else map_of sd ++ section_map self S)))
     \<and> (\<exists>new. dict_keys self' = dict_keys self @ new)"
  using assms
proof (induction rest arbitrary: self)
  case Nil
  then show ?case by simp
next
  case (Cons s rest)
  then have sub: "set rest \<subseteq> set (dict_keys d)" by simp
  from Cons.prems obtain x where x: "map_of d s = Some x"
    by (auto simp: in_dict_keys)
  show ?case
  proof (cases x)
    case (Scalar t)
    from Cons.IH [OF sub, of self] obtain self' where
      r: "merge_sections self d ov rest = Inr self'"
         "\<forall>S. (S \<in> set rest \<and> (\<exists>sd. map_of d S = Some (Dict sd)))
              \<or> map_of self' S = map_of self S"
         "\<forall>S sd. S \<in> set rest \<longrightarrow> map_of d S = Some (Dict sd) \<longrightarrow>
           (\<exists>sec'. map_of self' S = Some sec'
              \<and> map_of sec' = (if ov then section_map self S ++ map_of sd
                                else map_of sd ++ section_map self S))"
         "\<exists>new. dict_keys self' = dict_keys self @ new"
      by blast
    have run: "merge_sections self d ov (s # rest) = Inr self'"
      using r(1) x Scalar by (simp add: dict_getitem_Some)
    have a: "\<forall>S. (S \<in> set (s # rest) \<and> (\<exists>sd. map_of d S = Some (Dict sd)))
              \<or> map_of self' S = map_of self S"
      using r(2) by auto
    have b: "\<forall>S sd. S \<in> set (s # rest) \<longrightarrow> map_of d S = Some (Dict sd) \<longrightarrow>
           (\<exists>sec'. map_of self' S = Some sec'
              \<and> map_of sec' = (if ov then section_map self S ++ map_of sd
                                else map_of sd ++ section_map self S))"
      using r(3) x Scalar by auto
    from run a b r(4) show ?thesis by blast
  next
    case (Dict sd_s)
    let ?self1 = "if s \<notin> set (get_sections self) then add_section self s else self"
    from merge_body [of s self sd_s ov] obtain self2 sec2 where
      b: "merge_keys ?self1 s sd_s ov (dict_keys sd_s) = Inr self2"
         "map_of self2 = (map_of self)(s \<mapsto> sec2)"
         "\<exists>new. dict_keys self2 = dict_keys self @ new"
         "map_of sec2 = (if ov then section_map self s ++ map_of sd_s
                          else map_of sd_s ++ section_map self s)"
      by blast
    from Cons.IH [OF sub, of self2] obtain self' where
      r: "merge_sections self2 d ov rest = Inr self'"
         "\<forall>S. (S \<in> set rest \<and> (\<exists>sd. map_of d S = Some (Dict sd)))
              \<or> map_of self' S = map_of self2 S"
         "\<forall>S sd. S \<in> set rest \<longrightarrow> map_of d S = Some (Dict sd) \<longrightarrow>
           (\<exists>sec'. map_of self' S = Some sec'
              \<and> map_of sec' = (if ov then section_map self2 S ++ map_of sd
                                else map_of sd ++ section_map self2 S))"
         "\<exists>new. dict_keys self' = dict_keys self2 @ new"
      by blast
    have run: "merge_sections self d ov (s # rest) = Inr self'"
      using r(1) b(1) x Dict by (simp add: dict_getitem_Some)
    have a: "(S \<in> set (s # rest) \<and> (\<exists>sd. map_of d S = Some (Dict sd)))
              \<or> map_of self' S = map_of self S" for S
    proof (cases "S = s")
      case True
      then show ?thesis using x Dict by simp
    next
      case False
      then show ?thesis using r(2) [rule_format, of S] b(2) by auto
    qed
    have c: "\<exists>sec'. map_of self' S = Some sec'
              \<and> map_of sec' = (if ov then section_map self S ++ map_of sd
                                else map_of sd ++ section_map self S)"
      if S: "S \<in> set (s # rest)" and sd: "map_of d S = Some (Dict sd)" for S sd
    proof (cases "S \<in> set rest")
      case True
      from r(3) [rule_format, OF True sd] obtain sec' where
        s': "map_of self' S = Some sec'"
            "map_of sec' = (if ov then section_map self2 S ++ map_of sd
                                else map_of sd ++ section_map self2 S)"
        by blast
      show ?thesis
      proof (cases "S = s")
        case True
        then have "sd = sd_s" using sd x Dict by simp
        with True s' b(4) section_map_upd [OF b(2), of S] show ?thesis
          by (simp add: map_add_same map_add_same_right)
      next
        case False
        with s' section_map_upd [OF b(2), of S] show ?thesis by simp
      qed
    next
      case False
      with S have Ss: "S = s" by simp
      then have "sd = sd_s" using sd x Dict by simp
      moreover have "map_of self' S = map_of self2 S"
        using r(2) [rule_format, of S] False by simp
      ultimately show ?thesis using b(2,4) Ss by simp
    qed
    have k: "\<exists>new. dict_keys self' = dict_keys self @ new"
      using b(3) r(4) by auto
    from run a c k show ?thesis by blast
  qed
qed

subsection \<open>The interface\<close>

lemma has_section_iff: "has_section self S \<longleftrightarrow> map_of self S \<noteq> None"
  by (simp add: has_section_def in_get_sections)

lemma get_Some:
  "map_of self S = Some sec \<Longrightarrow> get self S K = dict_getitem sec K"
  by (simp add: get_def dict_getitem_def)

lemma get_Inr_iff: "get self S K = Inr v \<longleftrightarrow> section_map self S K = Some v"
  by (simp add: get_def dict_getitem_def section_map_def split: option.splits)

lemma get_section_map:
  "get self S K = (case section_map self S K of
                     None \<Rightarrow> Inl (KeyError (if has_section self S then K else S))
                   | Some v \<Rightarrow> Inr v)"
  by (simp add: get_def dict_getitem_def section_map_def has_section_iff split: option.splits)

lemma set_dict_keys: "set (dict_keys d) = dom (map_of d)"
  by (simp add: dict_keys_def dom_map_of_conv_image_fst)

lemma keys_section_map:
  "set (case keys self S of Inl e \<Rightarrow> [] | Inr ks \<Rightarrow> ks) = dom (section_map self S)"
  by (simp add: keys_def dict_getitem_def section_map_def set_dict_keys split: option.splits)

text \<open>The whole of \<open>merge\<close>, from the outer loop over all keys of the dictionary.\<close>

lemma merge_spec:
  "\<exists>self'. merge self d ov = Inr self'
     \<and> (\<forall>S. (\<exists>sd. map_of d S = Some (Dict sd)) \<or> map_of self' S = map_of self S)
     \<and> (\<forall>S sd. map_of d S = Some (Dict sd) \<longrightarrow>
           (\<exists>sec'. map_of self' S = Some sec'
              \<and> map_of sec' = (if ov then section_map self S ++ map_of sd
                                else map_of sd ++ section_map self S)))
     \<and> (\<exists>new. dict_keys self' = dict_keys self @ new)"
proof -
  have "set (dict_keys d) \<subseteq> set (dict_keys d)" by simp
  from merge_sections_spec [OF this, of self ov] obtain self' where
    r: "merge_sections self d ov (dict_keys d) = Inr self'"
       "\<forall>S. (S \<in> set (dict_keys d) \<and> (\<exists>sd. map_of d S = Some (Dict sd)))
              \<or> map_of self' S = map_of self S"
       "\<forall>S sd. S \<in> set (dict_keys d) \<longrightarrow> map_of d S = Some (Dict sd) \<longrightarrow>
           (\<exists>sec'. map_of self' S = Some sec'
              \<and> map_of sec' = (if ov then section_map self S ++ map_of sd
                                else map_of sd ++ section_map self S))"
       "\<exists>new. dict_keys self' = dict_keys self @ new"
    by blast
  have a: "\<forall>S. (\<exists>sd. map_of d S = Some (Dict sd)) \<or> map_of self' S = map_of self S"
    using r(2) by blast
  have b: "\<forall>S sd. map_of d S = Some (Dict sd) \<longrightarrow>
           (\<exists>sec'. map_of self' S = Some sec'
              \<and> map_of sec' = (if ov then section_map self S ++ map_of sd
                                else map_of sd ++ section_map self S))"
    using r(3) by (simp add: in_dict_keys)
  from r(1,4) a b show ?thesis unfolding merge_def by blast
qed

text \<open>The loop of \<open>get_section_dict\<close> copies the visited keys of the section over the
  dictionary built so far.\<close>

lemma get_section_dict_loop_spec:
  assumes "map_of self S = Some sec" and "set ks \<subseteq> set (dict_keys sec)"
  shows "\<exists>d. get_section_dict_loop self S ks acc = Inr d
            \<and> map_of d = map_of acc ++ (map_of sec |` set ks)
            \<and> (distinct (dict_keys acc) \<longrightarrow> distinct (dict_keys d))"
  using assms(2)
proof (induction ks arbitrary: acc)
  case Nil
  then show ?case by simp
next
  case (Cons key ks)
  then obtain v where v: "map_of sec key = Some v" by (auto simp: in_dict_keys)
  have sub: "set ks \<subseteq> set (dict_keys sec)" using Cons.prems by simp
  let ?acc1 = "dict_setitem acc key v"
  from Cons.IH [OF sub, of ?acc1] obtain d where
    r: "get_section_dict_loop self S ks ?acc1 = Inr d"
       "map_of d = map_of ?acc1 ++ (map_of sec |` set ks)"
       "distinct (dict_keys ?acc1) \<longrightarrow> distinct (dict_keys d)"
    by blast
  have run: "get_section_dict_loop self S (key # ks) acc = Inr d"
    using r(1) v assms(1) by (simp add: get_Some dict_getitem_Some)
  have "map_of d = map_of acc ++ (map_of sec |` set (key # ks))"
  proof
    fix K
    show "map_of d K = (map_of acc ++ (map_of sec |` set (key # ks))) K"
      using r(2) v
      by (auto simp: map_of_dict_setitem map_add_def restrict_map_def split: option.splits)
  qed
  moreover have "distinct (dict_keys acc) \<longrightarrow> distinct (dict_keys d)"
    using r(3) by (simp add: dict_keys_def dict_setitem_def distinct_update)
  ultimately show ?case using run by blast
qed

text \<open>The equations that evaluate the interface on a concrete configuration.\<close>

lemmas eval_defs = merge_def dict_keys_def dict_getitem_def dict_setitem_def
  get_sections_def sections_def has_section_def add_section_def set_cfg_def keys_def get_def
  get_section_dict_def parse_file_def

section \<open>The claims\<close>

text \<open>
  Claim C1: let \<open>K\<close> be a key of the dictionary that \<open>dict_obj\<close> holds under \<open>S\<close>, with
  value \<open>v\<close>. From every configuration, \<open>merge\<close> with \<open>override\<close> true returns and
  \<open>get(S, K)\<close> is then \<open>v\<close>; \<open>merge\<close> with \<open>override\<close> false returns and \<open>get(S, K)\<close>
  is then the value \<open>K\<close> had before where it had one, and \<open>v\<close> where section or key
  were absent.
\<close>

theorem merge_write_policy:
  assumes "dict_getitem dict_obj S = Inr (Dict sd)" and "dict_getitem sd K = Inr v"
  shows "(\<exists>self'. merge self dict_obj True = Inr self' \<and> get self' S K = Inr v)
       \<and> (\<exists>self'. merge self dict_obj False = Inr self'
             \<and> get self' S K = (case get self S K of Inr old \<Rightarrow> Inr old | Inl e \<Rightarrow> Inr v))"
proof
  from assms have sd: "map_of dict_obj S = Some (Dict sd)" and v: "map_of sd K = Some v"
    by (simp_all add: dict_getitem_Inr)
  from merge_spec [of self dict_obj True] sd obtain self' sec' where
    "merge self dict_obj True = Inr self'" "map_of self' S = Some sec'"
    "map_of sec' = section_map self S ++ map_of sd"
    by (metis (full_types))
  with v have "merge self dict_obj True = Inr self' \<and> get self' S K = Inr v"
    by (simp add: get_Some dict_getitem_def)
  then show "\<exists>self'. merge self dict_obj True = Inr self' \<and> get self' S K = Inr v" ..
  from merge_spec [of self dict_obj False] sd obtain self' sec' where
    r: "merge self dict_obj False = Inr self'" "map_of self' S = Some sec'"
    "map_of sec' = map_of sd ++ section_map self S"
    by (metis (full_types))
  have "get self' S K = (case get self S K of Inr old \<Rightarrow> Inr old | Inl e \<Rightarrow> Inr v)"
    using r(2,3) v
    by (simp add: get_Some dict_getitem_def get_section_map [of self] map_add_def
        split: option.splits)
  with r(1) show "\<exists>self'. merge self dict_obj False = Inr self'
             \<and> get self' S K = (case get self S K of Inr old \<Rightarrow> Inr old | Inl e \<Rightarrow> Inr v)"
    by blast
qed

theorem merge_write_policy_witness:
  "dict_getitem [(''sec'', Dict [(''k'', Scalar ''v2''), (''j'', Scalar ''w'')])] ''sec''
     = Inr (Dict [(''k'', Scalar ''v2''), (''j'', Scalar ''w'')])
   \<and> dict_getitem [(''k'', Scalar ''v2''), (''j'', Scalar ''w'')] ''k'' = Inr (Scalar ''v2'')
   \<and> merge [] [(''sec'', Dict [(''k'', Scalar ''v1'')])] True = Inr [(''sec'', [(''k'', Scalar ''v1'')])]
   \<and> merge [(''sec'', [(''k'', Scalar ''v1'')])]
        [(''sec'', Dict [(''k'', Scalar ''v2''), (''j'', Scalar ''w'')])] True
       = Inr [(''sec'', [(''k'', Scalar ''v2''), (''j'', Scalar ''w'')])]
   \<and> get [(''sec'', [(''k'', Scalar ''v2''), (''j'', Scalar ''w'')])] ''sec'' ''k'' = Inr (Scalar ''v2'')
   \<and> merge [(''sec'', [(''k'', Scalar ''v1'')])]
        [(''sec'', Dict [(''k'', Scalar ''v2''), (''j'', Scalar ''w'')])] False
       = Inr [(''sec'', [(''k'', Scalar ''v1''), (''j'', Scalar ''w'')])]
   \<and> get [(''sec'', [(''k'', Scalar ''v1''), (''j'', Scalar ''w'')])] ''sec'' ''k'' = Inr (Scalar ''v1'')
   \<and> get [(''sec'', [(''k'', Scalar ''v1''), (''j'', Scalar ''w'')])] ''sec'' ''j'' = Inr (Scalar ''w'')"
  using merge_write_policy [of "[(''sec'', Dict [(''k'', Scalar ''v2''), (''j'', Scalar ''w'')])]"
      "''sec''" "[(''k'', Scalar ''v2''), (''j'', Scalar ''w'')]" "''k''" "Scalar ''v2''"
      "[(''sec'', [(''k'', Scalar ''v1'')])]"]
  by (simp add: eval_defs)

text \<open>
  Claim C2: for a path that does not exist, \<open>parse_file\<close> returns \<open>False\<close> and the
  configuration after the call is the configuration before it: every section, key and
  value is unchanged.
\<close>

theorem parse_file_missing:
  "\<not> path_exists fs (abspath_expanduser fs p) \<Longrightarrow> parse_file fs self p = Inr (False, self)"
  by (simp add: parse_file_def)

theorem parse_file_missing_witness:
  "\<not> path_exists \<lparr>abspath_expanduser = (\<lambda>p. ''/home/u/'' @ p),
        path_exists = (\<lambda>p. p = ''/home/u/app.conf''),
        configobj_dict = (\<lambda>p. Inr [])\<rparr>
      (abspath_expanduser \<lparr>abspath_expanduser = (\<lambda>p. ''/home/u/'' @ p),
        path_exists = (\<lambda>p. p = ''/home/u/app.conf''),
        configobj_dict = (\<lambda>p. Inr [])\<rparr> ''gone.conf'')
   \<and> parse_file \<lparr>abspath_expanduser = (\<lambda>p. ''/home/u/'' @ p),
        path_exists = (\<lambda>p. p = ''/home/u/app.conf''),
        configobj_dict = (\<lambda>p. Inr [])\<rparr>
      [(''sec'', [(''k'', Scalar ''v1'')])] ''gone.conf''
     = Inr (False, [(''sec'', [(''k'', Scalar ''v1'')])])"
  using parse_file_missing [of "\<lparr>abspath_expanduser = (\<lambda>p. ''/home/u/'' @ p),
        path_exists = (\<lambda>p. p = ''/home/u/app.conf''),
        configobj_dict = (\<lambda>p. Inr [])\<rparr>" "''gone.conf''" "[(''sec'', [(''k'', Scalar ''v1'')])]"]
  by simp

text \<open>
  Claim C3: \<open>merge\<close> returns for every dictionary and flag. The sections afterwards
  are the sections before together with the top-level keys whose value is a dictionary;
  a top-level entry with any other value creates no section and leaves a section of
  that name as it was. The keys of a named section afterwards are its keys before
  together with the keys of the nested dictionary and nothing from deeper levels: a
  value that is itself a dictionary is stored whole under its key whenever the key is
  written.
\<close>

theorem merge_sections_from_dicts_only:
  "\<exists>self'. merge self dict_obj override = Inr self'
     \<and> (\<forall>S. has_section self' S \<longleftrightarrow>
            has_section self S \<or> (\<exists>sd. dict_getitem dict_obj S = Inr (Dict sd)))
     \<and> (\<forall>S x. dict_getitem dict_obj S = Inr (Scalar x) \<longrightarrow>
            dict_getitem self' S = dict_getitem self S)
     \<and> (\<forall>S sd. dict_getitem dict_obj S = Inr (Dict sd) \<longrightarrow>
            (\<exists>ks'. keys self' S = Inr ks'
               \<and> set ks' = set (case keys self S of Inl e \<Rightarrow> [] | Inr ks \<Rightarrow> ks)
                             \<union> set (dict_keys sd)))
     \<and> (\<forall>S sd K deep. dict_getitem dict_obj S = Inr (Dict sd) \<longrightarrow>
            dict_getitem sd K = Inr (Dict deep) \<longrightarrow>
            override \<or> (\<forall>old. get self S K \<noteq> Inr old) \<longrightarrow>
            get self' S K = Inr (Dict deep))"
proof -
  from merge_spec [of self dict_obj override] obtain self' where
    run: "merge self dict_obj override = Inr self'"
    and other: "\<And>S. (\<exists>sd. map_of dict_obj S = Some (Dict sd)) \<or> map_of self' S = map_of self S"
    and named: "\<And>S sd. map_of dict_obj S = Some (Dict sd) \<Longrightarrow>
           \<exists>sec'. map_of self' S = Some sec'
              \<and> map_of sec' = (if override then section_map self S ++ map_of sd
                                else map_of sd ++ section_map self S)"
    by blast
  have a: "has_section self' S \<longleftrightarrow>
            has_section self S \<or> (\<exists>sd. dict_getitem dict_obj S = Inr (Dict sd))" for S
  proof (cases "\<exists>sd. map_of dict_obj S = Some (Dict sd)")
    case True
    then show ?thesis using named [of S] by (auto simp: has_section_iff dict_getitem_Inr)
  next
    case False
    then show ?thesis using other [of S] by (simp add: has_section_iff dict_getitem_Inr)
  qed
  have b: "dict_getitem self' S = dict_getitem self S"
    if "dict_getitem dict_obj S = Inr (Scalar x)" for S x
  proof -
    from that have "map_of dict_obj S = Some (Scalar x)" by (simp add: dict_getitem_Inr)
    with other [of S] have "map_of self' S = map_of self S" by auto
    then show ?thesis by (simp add: dict_getitem_def)
  qed
  have c: "\<exists>ks'. keys self' S = Inr ks'
               \<and> set ks' = set (case keys self S of Inl e \<Rightarrow> [] | Inr ks \<Rightarrow> ks)
                             \<union> set (dict_keys sd)"
    if "dict_getitem dict_obj S = Inr (Dict sd)" for S sd
  proof -
    from that named [of S sd] obtain sec' where
      s: "map_of self' S = Some sec'"
         "map_of sec' = (if override then section_map self S ++ map_of sd
                                else map_of sd ++ section_map self S)"
      by (auto simp: dict_getitem_Inr)
    have "keys self' S = Inr (dict_keys sec')" using s(1) by (rule keys_Some)
    moreover have "set (dict_keys sec') = dom (section_map self S) \<union> set (dict_keys sd)"
      using s(2) by (auto simp: set_dict_keys)
    ultimately show ?thesis by (simp add: keys_section_map)
  qed
  have d: "get self' S K = Inr (Dict deep)"
    if "dict_getitem dict_obj S = Inr (Dict sd)" and "dict_getitem sd K = Inr (Dict deep)"
      and "override \<or> (\<forall>old. get self S K \<noteq> Inr old)" for S sd K deep
  proof -
    from that(1) named [of S sd] obtain sec' where
      s: "map_of self' S = Some sec'"
         "map_of sec' = (if override then section_map self S ++ map_of sd
                                else map_of sd ++ section_map self S)"
      by (auto simp: dict_getitem_Inr)
    have "map_of sd K = Some (Dict deep)" using that(2) by (simp add: dict_getitem_Inr)
    moreover have "override \<or> section_map self S K = None"
      using that(3) by (auto simp: get_Inr_iff)
    ultimately have "map_of sec' K = Some (Dict deep)"
      using s(2) by (auto simp: map_add_def)
    then show ?thesis using s(1) by (simp add: get_Some dict_getitem_def)
  qed
  from run a b c d show ?thesis by blast
qed

theorem merge_sections_from_dicts_only_witness:
  "merge [(''old'', [(''a'', Scalar ''1'')])]
      [(''top'', Scalar ''x''), (''sec'', Dict [(''k'', Dict [(''deep'', Scalar ''z'')])])] False
     = Inr [(''old'', [(''a'', Scalar ''1'')]), (''sec'', [(''k'', Dict [(''deep'', Scalar ''z'')])])]
   \<and> dict_getitem [(''top'', Scalar ''x''), (''sec'', Dict [(''k'', Dict [(''deep'', Scalar ''z'')])])] ''top''
       = Inr (Scalar ''x'')
   \<and> \<not> has_section [(''old'', [(''a'', Scalar ''1'')]), (''sec'', [(''k'', Dict [(''deep'', Scalar ''z'')])])] ''top''
   \<and> has_section [(''old'', [(''a'', Scalar ''1'')]), (''sec'', [(''k'', Dict [(''deep'', Scalar ''z'')])])] ''sec''
   \<and> keys [(''old'', [(''a'', Scalar ''1'')]), (''sec'', [(''k'', Dict [(''deep'', Scalar ''z'')])])] ''sec''
       = Inr [''k'']
   \<and> get [(''old'', [(''a'', Scalar ''1'')]), (''sec'', [(''k'', Dict [(''deep'', Scalar ''z'')])])] ''sec'' ''k''
       = Inr (Dict [(''deep'', Scalar ''z'')])"
  using merge_sections_from_dicts_only [of "[(''old'', [(''a'', Scalar ''1'')])]"
      "[(''top'', Scalar ''x''), (''sec'', Dict [(''k'', Dict [(''deep'', Scalar ''z'')])])]" False]
  by (simp add: eval_defs)

text \<open>
  Claim C4: for a path that exists and whose file parses to the dictionary \<open>c\<close>,
  \<open>parse_file\<close> returns \<open>True\<close> with the configuration that \<open>merge\<close> of \<open>c\<close> with
  \<open>override\<close> true produces. Every section of the file is then listed by
  \<open>get_sections\<close>, and \<open>get_section_dict\<close> of it holds every key of the file with the
  file's value. The configuration is merged into: every section it had is still
  listed, and every key the file does not set keeps its value.
\<close>

theorem parse_file_existing:
  assumes "path_exists fs (abspath_expanduser fs p)"
    and "configobj_dict fs (abspath_expanduser fs p) = Inr c"
  shows "\<exists>self'. parse_file fs self p = Inr (True, self')
     \<and> merge self c True = Inr self'
     \<and> (\<forall>S sd. dict_getitem c S = Inr (Dict sd) \<longrightarrow>
           S \<in> set (get_sections self')
           \<and> (\<exists>sdict. get_section_dict self' S = Inr sdict
                 \<and> (\<forall>K v. dict_getitem sd K = Inr v \<longrightarrow> dict_getitem sdict K = Inr v)))
     \<and> (\<forall>S. S \<in> set (get_sections self) \<longrightarrow> S \<in> set (get_sections self'))
     \<and> (\<forall>S K v. get self S K = Inr v \<longrightarrow>
           (\<forall>sd. dict_getitem c S = Inr (Dict sd) \<longrightarrow> K \<notin> set (dict_keys sd)) \<longrightarrow>
           get self' S K = Inr v)"
proof -
  from merge_spec [of self c True] obtain self' where
    run: "merge self c True = Inr self'"
    and other: "\<And>S. (\<exists>sd. map_of c S = Some (Dict sd)) \<or> map_of self' S = map_of self S"
    and named: "\<And>S sd. map_of c S = Some (Dict sd) \<Longrightarrow>
           \<exists>sec'. map_of self' S = Some sec' \<and> map_of sec' = section_map self S ++ map_of sd"
    by auto
  have pf: "parse_file fs self p = Inr (True, self')"
    using assms run by (simp add: parse_file_def)
  have a: "S \<in> set (get_sections self')
           \<and> (\<exists>sdict. get_section_dict self' S = Inr sdict
                 \<and> (\<forall>K v. dict_getitem sd K = Inr v \<longrightarrow> dict_getitem sdict K = Inr v))"
    if "dict_getitem c S = Inr (Dict sd)" for S sd
  proof -
    from that named [of S sd] obtain sec' where
      s: "map_of self' S = Some sec'" "map_of sec' = section_map self S ++ map_of sd"
      by (auto simp: dict_getitem_Inr)
    have sub: "set (dict_keys sec') \<subseteq> set (dict_keys sec')" by simp
    from get_section_dict_loop_spec [OF s(1) sub, of "[]"] obtain sdict where
      d: "get_section_dict_loop self' S (dict_keys sec') [] = Inr sdict"
         "map_of sdict = map_of [] ++ (map_of sec' |` set (dict_keys sec'))"
      by blast
    have "get_section_dict self' S = Inr sdict"
      using d(1) keys_Some [OF s(1)] by (simp add: get_section_dict_def)
    moreover have "map_of sdict = map_of sec'"
      using d(2) by (simp add: restrict_dict_keys)
    then have "map_of sdict = section_map self S ++ map_of sd"
      using s(2) by simp
    then have "\<forall>K v. dict_getitem sd K = Inr v \<longrightarrow> dict_getitem sdict K = Inr v"
      by (simp add: dict_getitem_Inr)
    moreover have "S \<in> set (get_sections self')" using s(1) by (simp add: in_get_sections)
    ultimately show ?thesis by blast
  qed
  have b: "S \<in> set (get_sections self')" if "S \<in> set (get_sections self)" for S
  proof (cases "\<exists>sd. map_of c S = Some (Dict sd)")
    case True
    then show ?thesis using named [of S] by (auto simp: in_get_sections)
  next
    case False
    then show ?thesis using other [of S] that by (simp add: in_get_sections)
  qed
  have d: "get self' S K = Inr v"
    if g: "get self S K = Inr v"
      and k: "\<forall>sd. dict_getitem c S = Inr (Dict sd) \<longrightarrow> K \<notin> set (dict_keys sd)" for S K v
  proof (cases "\<exists>sd. map_of c S = Some (Dict sd)")
    case True
    then obtain sd where sd: "map_of c S = Some (Dict sd)" ..
    from named [OF sd] obtain sec' where
      s: "map_of self' S = Some sec'" "map_of sec' = section_map self S ++ map_of sd"
      by blast
    have "map_of sd K = None" using k sd by (simp add: dict_getitem_Inr in_dict_keys)
    then have "map_of sec' K = section_map self S K"
      using s(2) by (simp add: map_add_def)
    then show ?thesis using s(1) g by (simp add: get_Inr_iff section_map_def)
  next
    case False
    with other [of S] have "map_of self' S = map_of self S" by blast
    then show ?thesis using g by (simp add: get_def dict_getitem_def)
  qed
  from pf run a b d show ?thesis by blast
qed

theorem parse_file_existing_witness:
  "path_exists \<lparr>abspath_expanduser = (\<lambda>p. ''/home/u/'' @ p),
        path_exists = (\<lambda>p. p = ''/home/u/app.conf''),
        configobj_dict = (\<lambda>p. Inr [(''top'', Scalar ''t''),
                                   (''sec'', Dict [(''k'', Scalar ''v2'')]),
                                   (''new'', Dict [(''n'', Scalar ''1'')])])\<rparr>
      ''/home/u/app.conf''
   \<and> parse_file \<lparr>abspath_expanduser = (\<lambda>p. ''/home/u/'' @ p),
        path_exists = (\<lambda>p. p = ''/home/u/app.conf''),
        configobj_dict = (\<lambda>p. Inr [(''top'', Scalar ''t''),
                                   (''sec'', Dict [(''k'', Scalar ''v2'')]),
                                   (''new'', Dict [(''n'', Scalar ''1'')])])\<rparr>
      [(''sec'', [(''k'', Scalar ''v1''), (''j'', Scalar ''w'')])] ''app.conf''
     = Inr (True, [(''sec'', [(''k'', Scalar ''v2''), (''j'', Scalar ''w'')]),
                   (''new'', [(''n'', Scalar ''1'')])])
   \<and> get_sections [(''sec'', [(''k'', Scalar ''v2''), (''j'', Scalar ''w'')]),
                    (''new'', [(''n'', Scalar ''1'')])] = [''sec'', ''new'']
   \<and> get_section_dict [(''sec'', [(''k'', Scalar ''v2''), (''j'', Scalar ''w'')]),
                        (''new'', [(''n'', Scalar ''1'')])] ''new'' = Inr [(''n'', Scalar ''1'')]
   \<and> get [(''sec'', [(''k'', Scalar ''v2''), (''j'', Scalar ''w'')]),
           (''new'', [(''n'', Scalar ''1'')])] ''sec'' ''j'' = Inr (Scalar ''w'')"
  using parse_file_existing [of "\<lparr>abspath_expanduser = (\<lambda>p. ''/home/u/'' @ p),
        path_exists = (\<lambda>p. p = ''/home/u/app.conf''),
        configobj_dict = (\<lambda>p. Inr [(''top'', Scalar ''t''),
                                   (''sec'', Dict [(''k'', Scalar ''v2'')]),
                                   (''new'', Dict [(''n'', Scalar ''1'')])])\<rparr>"
      "''app.conf''"
      "[(''top'', Scalar ''t''), (''sec'', Dict [(''k'', Scalar ''v2'')]),
        (''new'', Dict [(''n'', Scalar ''1'')])]"
      "[(''sec'', [(''k'', Scalar ''v1''), (''j'', Scalar ''w'')])]"]
  by (simp add: eval_defs)

text \<open>
  Claim C5: \<open>set\<close> on a section that exists succeeds and leaves the key among the keys
  of the section, whether or not the key was there, without changing the list of
  sections; on a section that does not exist it raises \<open>KeyError\<close> for the section
  name and creates no section.
\<close>

theorem set_cfg_needs_section:
  "(has_section self S \<longrightarrow>
      (\<exists>self' ks. set_cfg self S K V = Inr self' \<and> keys self' S = Inr ks \<and> K \<in> set ks
         \<and> get_sections self' = get_sections self))
   \<and> (\<not> has_section self S \<longrightarrow>
        set_cfg self S K V = Inl (KeyError S))"
proof (cases "map_of self S")
  case None
  then show ?thesis by (simp add: has_section_iff set_cfg_def dict_getitem_def)
next
  case (Some sec)
  let ?self' = "dict_setitem self S (dict_setitem sec K V)"
  have "set_cfg self S K V = Inr ?self'" using Some by (rule set_cfg_Some)
  moreover have "keys ?self' S = Inr (dict_keys (dict_setitem sec K V))"
    by (rule keys_Some) (simp add: map_of_dict_setitem)
  moreover have "K \<in> set (dict_keys (dict_setitem sec K V))"
    by (simp add: in_dict_keys map_of_dict_setitem)
  moreover have "get_sections ?self' = get_sections self"
    using Some by (simp add: get_sections_def sections_def dict_keys_setitem in_dict_keys)
  ultimately show ?thesis using Some by (simp add: has_section_iff)
qed

theorem set_cfg_needs_section_witness:
  "has_section [(''sec'', [(''k'', Scalar ''v1'')])] ''sec''
   \<and> set_cfg [(''sec'', [(''k'', Scalar ''v1'')])] ''sec'' ''new'' (Scalar ''v2'')
       = Inr [(''sec'', [(''k'', Scalar ''v1''), (''new'', Scalar ''v2'')])]
   \<and> keys [(''sec'', [(''k'', Scalar ''v1''), (''new'', Scalar ''v2'')])] ''sec''
       = Inr [''k'', ''new'']
   \<and> \<not> has_section [(''sec'', [(''k'', Scalar ''v1'')])] ''other''
   \<and> set_cfg [(''sec'', [(''k'', Scalar ''v1'')])] ''other'' ''new'' (Scalar ''v2'')
       = Inl (KeyError ''other'')"
  using set_cfg_needs_section [of "[(''sec'', [(''k'', Scalar ''v1'')])]" "''sec''" "''new''" "Scalar ''v2''"]
    set_cfg_needs_section [of "[(''sec'', [(''k'', Scalar ''v1'')])]" "''other''" "''new''" "Scalar ''v2''"]
  by (simp add: has_section_def get_sections_def sections_def dict_keys_def set_cfg_def
      dict_getitem_def dict_setitem_def keys_def)

text \<open>
  Claim C6: when section \<open>S\<close> exists, \<open>set(S, K, V)\<close> succeeds and \<open>get(S, K)\<close> on the
  resulting configuration returns \<open>V\<close>.
\<close>

theorem set_get_roundtrip:
  "has_section self S \<Longrightarrow> \<exists>self'. set_cfg self S K V = Inr self' \<and> get self' S K = Inr V"
proof -
  assume "has_section self S"
  then obtain sec where sec: "map_of self S = Some sec" by (auto simp: has_section_iff)
  let ?self' = "dict_setitem self S (dict_setitem sec K V)"
  have "set_cfg self S K V = Inr ?self'" using sec by (rule set_cfg_Some)
  moreover have "get ?self' S K = Inr V"
    by (simp add: get_def dict_getitem_def map_of_dict_setitem)
  ultimately show ?thesis by blast
qed

theorem set_get_roundtrip_witness:
  "has_section [(''a'', []), (''sec'', [(''k'', Scalar ''v1'')])] ''sec''
   \<and> set_cfg [(''a'', []), (''sec'', [(''k'', Scalar ''v1'')])] ''sec'' ''k'' (Dict [(''x'', Scalar ''y'')])
       = Inr [(''a'', []), (''sec'', [(''k'', Dict [(''x'', Scalar ''y'')])])]
   \<and> get [(''a'', []), (''sec'', [(''k'', Dict [(''x'', Scalar ''y'')])])] ''sec'' ''k''
       = Inr (Dict [(''x'', Scalar ''y'')])"
  using set_get_roundtrip [of "[(''a'', []), (''sec'', [(''k'', Scalar ''v1'')])]" "''sec''" "''k''" "Dict [(''x'', Scalar ''y'')]"]
  by (simp add: has_section_def get_sections_def sections_def dict_keys_def set_cfg_def
      dict_getitem_def dict_setitem_def get_def)

text \<open>
  Claim C7: when section \<open>S\<close> exists, \<open>get_section_dict(S)\<close> returns a dictionary
  (no key twice) whose set of keys is the set of \<open>keys(S)\<close> and which maps every such
  key to what \<open>get(S, key)\<close> returns.
\<close>

theorem get_section_dict_keys_values:
  "has_section self S \<Longrightarrow>
   \<exists>d ks. get_section_dict self S = Inr d \<and> keys self S = Inr ks
     \<and> distinct (dict_keys d) \<and> set (dict_keys d) = set ks
     \<and> (\<forall>k \<in> set ks. \<exists>v. get self S k = Inr v \<and> dict_getitem d k = Inr v)"
proof -
  assume "has_section self S"
  then obtain sec where sec: "map_of self S = Some sec" by (auto simp: has_section_iff)
  have ks: "keys self S = Inr (dict_keys sec)" using sec by (rule keys_Some)
  have "set (dict_keys sec) \<subseteq> set (dict_keys sec)" by simp
  from get_section_dict_loop_spec [OF sec this, of "[]"] obtain d where
    d: "get_section_dict_loop self S (dict_keys sec) [] = Inr d"
       "map_of d = map_of [] ++ (map_of sec |` set (dict_keys sec))"
       "distinct (dict_keys ([] :: pydict)) \<longrightarrow> distinct (dict_keys d)"
    by blast
  have dm: "map_of d = map_of sec" using d(2) by (simp add: restrict_dict_keys)
  have dd: "distinct (dict_keys d)" using d(3) by (simp add: dict_keys_def)
  have run: "get_section_dict self S = Inr d"
    using d(1) ks by (simp add: get_section_dict_def)
  have same: "set (dict_keys d) = set (dict_keys sec)"
    using dm by (simp add: set_dict_keys)
  have "\<exists>v. get self S k = Inr v \<and> dict_getitem d k = Inr v"
    if "k \<in> set (dict_keys sec)" for k
  proof -
    from that obtain v where "map_of sec k = Some v" by (auto simp: in_dict_keys)
    then show ?thesis using sec dm by (simp add: get_Some dict_getitem_def)
  qed
  with run ks dd same show ?thesis by blast
qed

theorem get_section_dict_keys_values_witness:
  "has_section [(''a'', []), (''sec'', [(''k'', Scalar ''v1''), (''j'', Scalar ''v2'')])] ''sec''
   \<and> get_section_dict [(''a'', []), (''sec'', [(''k'', Scalar ''v1''), (''j'', Scalar ''v2'')])] ''sec''
       = Inr [(''k'', Scalar ''v1''), (''j'', Scalar ''v2'')]
   \<and> keys [(''a'', []), (''sec'', [(''k'', Scalar ''v1''), (''j'', Scalar ''v2'')])] ''sec''
       = Inr [''k'', ''j'']
   \<and> get [(''a'', []), (''sec'', [(''k'', Scalar ''v1''), (''j'', Scalar ''v2'')])] ''sec'' ''j''
       = Inr (Scalar ''v2'')"
  using get_section_dict_keys_values
    [of "[(''a'', []), (''sec'', [(''k'', Scalar ''v1''), (''j'', Scalar ''v2'')])]" "''sec''"]
  by (simp add: has_section_def get_sections_def sections_def dict_keys_def
      get_section_dict_def keys_def get_def dict_getitem_def dict_setitem_def)

text \<open>
  Claim C8: \<open>add_section\<close> is idempotent. Calling it twice gives the configuration that
  calling it once gives, and on a section that already exists it changes nothing, so no
  key or value of the section is lost. It has no failing branch.
\<close>

theorem add_section_idempotent:
  "add_section (add_section self S) S = add_section self S
   \<and> (has_section self S \<longrightarrow> add_section self S = self)"
proof -
  have "has_section (add_section self S) S"
    by (simp add: add_section_def has_section_iff map_of_dict_setitem)
  then show ?thesis by (simp add: add_section_def)
qed

theorem add_section_idempotent_witness:
  "has_section [(''sec'', [(''k'', Scalar ''v1'')])] ''sec''
   \<and> add_section [(''sec'', [(''k'', Scalar ''v1'')])] ''sec'' = [(''sec'', [(''k'', Scalar ''v1'')])]
   \<and> add_section (add_section [(''sec'', [(''k'', Scalar ''v1'')])] ''new'') ''new''
       = [(''sec'', [(''k'', Scalar ''v1'')]), (''new'', [])]"
  using add_section_idempotent [of "[(''sec'', [(''k'', Scalar ''v1'')])]" "''sec''"]
    add_section_idempotent [of "[(''sec'', [(''k'', Scalar ''v1'')])]" "''new''"]
  by (simp add: has_section_def get_sections_def sections_def dict_keys_def add_section_def
      dict_setitem_def)

text \<open>
  Claim C9: \<open>has_section(S)\<close> is true exactly when \<open>S\<close> is in \<open>get_sections()\<close>; for a
  section name that is not in the configuration it is false, and after
  \<open>add_section(S)\<close> it is true.
\<close>

theorem has_section_add_section:
  "(has_section self S \<longleftrightarrow> S \<in> set (get_sections self))
   \<and> (S \<notin> set (get_sections self) \<longrightarrow>
        \<not> has_section self S \<and> has_section (add_section self S) S)"
  by (simp add: has_section_def add_section_def in_get_sections map_of_dict_setitem)

theorem has_section_add_section_witness:
  "''new'' \<notin> set (get_sections [(''sec'', [(''k'', Scalar ''v1'')])])
   \<and> \<not> has_section [(''sec'', [(''k'', Scalar ''v1'')])] ''new''
   \<and> has_section (add_section [(''sec'', [(''k'', Scalar ''v1'')])] ''new'') ''new''
   \<and> get_sections (add_section [(''sec'', [(''k'', Scalar ''v1'')])] ''new'') = [''sec'', ''new'']"
  using has_section_add_section [of "[(''sec'', [(''k'', Scalar ''v1'')])]" "''new''"]
  by (simp add: has_section_def get_sections_def sections_def dict_keys_def add_section_def
      dict_setitem_def)

text \<open>
  Claim C10: \<open>merge\<close> returns, and a section whose name is not a top-level key of
  \<open>dict_obj\<close> with a dictionary value is afterwards exactly what it was (absent if it
  was absent). In a named section, a key that the nested dictionary does not hold has
  a value afterwards exactly when it had one before, and the same one. Nothing is
  deleted: the list of sections afterwards starts with the list before, and the keys
  of every section are still keys of it.
\<close>

theorem merge_frame:
  "\<exists>self'. merge self dict_obj override = Inr self'
     \<and> (\<forall>S. (\<forall>sd. dict_getitem dict_obj S \<noteq> Inr (Dict sd)) \<longrightarrow>
            dict_getitem self' S = dict_getitem self S)
     \<and> (\<forall>S sd K. dict_getitem dict_obj S = Inr (Dict sd) \<longrightarrow> K \<notin> set (dict_keys sd) \<longrightarrow>
            (\<forall>v. get self' S K = Inr v \<longleftrightarrow> get self S K = Inr v))
     \<and> (\<exists>new. get_sections self' = get_sections self @ new)
     \<and> (\<forall>S ks. keys self S = Inr ks \<longrightarrow>
            (\<exists>ks'. keys self' S = Inr ks' \<and> set ks \<subseteq> set ks'))"
proof -
  from merge_spec [of self dict_obj override] obtain self' where
    run: "merge self dict_obj override = Inr self'"
    and other: "\<And>S. (\<exists>sd. map_of dict_obj S = Some (Dict sd)) \<or> map_of self' S = map_of self S"
    and named: "\<And>S sd. map_of dict_obj S = Some (Dict sd) \<Longrightarrow>
           \<exists>sec'. map_of self' S = Some sec'
              \<and> map_of sec' = (if override then section_map self S ++ map_of sd
                                else map_of sd ++ section_map self S)"
    and grow: "\<exists>new. dict_keys self' = dict_keys self @ new"
    by blast
  have a: "dict_getitem self' S = dict_getitem self S"
    if "\<forall>sd. dict_getitem dict_obj S \<noteq> Inr (Dict sd)" for S
  proof -
    from that have "\<not> (\<exists>sd. map_of dict_obj S = Some (Dict sd))"
      by (simp add: dict_getitem_Inr)
    with other [of S] have "map_of self' S = map_of self S" by blast
    then show ?thesis by (simp add: dict_getitem_def)
  qed
  have b: "get self' S K = Inr v \<longleftrightarrow> get self S K = Inr v"
    if "dict_getitem dict_obj S = Inr (Dict sd)" and "K \<notin> set (dict_keys sd)" for S sd K v
  proof -
    from that(1) named [of S sd] obtain sec' where
      s: "map_of self' S = Some sec'"
         "map_of sec' = (if override then section_map self S ++ map_of sd
                                else map_of sd ++ section_map self S)"
      by (auto simp: dict_getitem_Inr)
    have "map_of sd K = None" using that(2) by (simp add: in_dict_keys)
    then have "map_of sec' K = section_map self S K"
      using s(2) by (simp add: map_add_def split: option.splits)
    moreover have "section_map self' S K = map_of sec' K"
      using s(1) by (simp add: section_map_def)
    ultimately show ?thesis by (simp add: get_Inr_iff)
  qed
  have c: "\<exists>new. get_sections self' = get_sections self @ new"
    using grow by (simp add: get_sections_def sections_def)
  have d: "\<exists>ks'. keys self' S = Inr ks' \<and> set ks \<subseteq> set ks'"
    if "keys self S = Inr ks" for S ks
  proof (cases "\<exists>sd. map_of dict_obj S = Some (Dict sd)")
    case True
    then obtain sd where sd: "map_of dict_obj S = Some (Dict sd)" ..
    from named [OF sd] obtain sec' where
      s: "map_of self' S = Some sec'"
         "map_of sec' = (if override then section_map self S ++ map_of sd
                                else map_of sd ++ section_map self S)"
      by blast
    have "keys self' S = Inr (dict_keys sec')" using s(1) by (rule keys_Some)
    moreover have "set (dict_keys sec') = dom (section_map self S) \<union> set (dict_keys sd)"
      using s(2) by (auto simp: set_dict_keys)
    moreover have "set ks = dom (section_map self S)"
      using keys_section_map [of self S] that by simp
    ultimately show ?thesis by auto
  next
    case False
    with other [of S] have "map_of self' S = map_of self S" by blast
    then have "keys self' S = keys self S" by (simp add: keys_def dict_getitem_def)
    with that show ?thesis by auto
  qed
  from run a b c d show ?thesis by blast
qed

theorem merge_frame_witness:
  "merge [(''old'', [(''a'', Scalar ''1'')]), (''sec'', [(''k'', Scalar ''v1''), (''j'', Scalar ''w'')])]
      [(''old'', Scalar ''x''), (''sec'', Dict [(''k'', Scalar ''v2'')])] True
     = Inr [(''old'', [(''a'', Scalar ''1'')]), (''sec'', [(''k'', Scalar ''v2''), (''j'', Scalar ''w'')])]
   \<and> (\<forall>sd. dict_getitem [(''old'', Scalar ''x''), (''sec'', Dict [(''k'', Scalar ''v2'')])] ''old''
          \<noteq> Inr (Dict sd))
   \<and> dict_getitem [(''old'', [(''a'', Scalar ''1'')]), (''sec'', [(''k'', Scalar ''v2''), (''j'', Scalar ''w'')])] ''old''
       = dict_getitem [(''old'', [(''a'', Scalar ''1'')]), (''sec'', [(''k'', Scalar ''v1''), (''j'', Scalar ''w'')])] ''old''
   \<and> dict_getitem [(''old'', Scalar ''x''), (''sec'', Dict [(''k'', Scalar ''v2'')])] ''sec''
       = Inr (Dict [(''k'', Scalar ''v2'')])
   \<and> ''j'' \<notin> set (dict_keys [(''k'', Scalar ''v2'')])
   \<and> get [(''old'', [(''a'', Scalar ''1'')]), (''sec'', [(''k'', Scalar ''v2''), (''j'', Scalar ''w'')])] ''sec'' ''j''
       = Inr (Scalar ''w'')
   \<and> keys [(''old'', [(''a'', Scalar ''1'')]), (''sec'', [(''k'', Scalar ''v1''), (''j'', Scalar ''w'')])] ''sec''
       = Inr [''k'', ''j'']
   \<and> keys [(''old'', [(''a'', Scalar ''1'')]), (''sec'', [(''k'', Scalar ''v2''), (''j'', Scalar ''w'')])] ''sec''
       = Inr [''k'', ''j'']"
  using merge_frame [of "[(''old'', [(''a'', Scalar ''1'')]), (''sec'', [(''k'', Scalar ''v1''), (''j'', Scalar ''w'')])]"
      "[(''old'', Scalar ''x''), (''sec'', Dict [(''k'', Scalar ''v2'')])]" True]
  by (simp add: eval_defs)

end
